theory Spec2Isabelle
  imports Complex_Main "HOL-Library.Word" "HOL-Library.AList"
begin

section \<open>Resource lookup: \<open>find_file\<close> (lib/src/support/resource_paths.cpp)\<close>

text \<open>
  \<open>find_file\<close> uses three operations of the filesystem library, which is not part of the
  repository: \<open>fs::path::is_absolute\<close>, \<open>operator/\<close> followed by \<open>string()\<close>, and
  \<open>fs::exists\<close>. They are taken as parameters, collected in a record, so every theorem
  below holds for any filesystem library and any directory contents. Paths are strings.
  \<open>find_file\<close> calls the overload of \<open>fs::exists\<close> that throws \<open>filesystem_error\<close> when the
  status of the path cannot be determined (a name that is too long, a directory that may
  not be searched); a file that is merely absent is the result \<open>false\<close>. The parameter
  \<open>path_exists\<close> returns the exception or the truth value.
\<close>

datatype fs_error = Filesystem_error string

record filesystem =
  is_absolute :: "string \<Rightarrow> bool"
  path_append :: "string \<Rightarrow> string \<Rightarrow> string"
  path_exists :: "string \<Rightarrow> fs_error + bool"

text \<open>
  The argument of \<open>find_file\<close> is a \<open>string_view\<close>: a pointer into a character array and
  a size. \<open>sv_memory\<close> holds the characters of the array from the pointer up to the
  array's end, and \<open>sv_size\<close> the size. \<open>std::string(file)\<close> reads the first \<open>size()\<close>
  characters; \<open>file.data()\<close>, passed on as a C string, is read up to the first NUL
  character, or the end of the array, wherever the view ends.
\<close>

record string_view =
  sv_memory :: string
  sv_size :: nat

definition view_chars :: "string_view \<Rightarrow> string" where
  "view_chars file = take (sv_size file) (sv_memory file)"

definition data_c_str :: "string_view \<Rightarrow> string" where
  "data_c_str file = takeWhile (\<lambda>c. c \<noteq> CHR 0x00) (sv_memory file)"

definition whole_view :: "string \<Rightarrow> string_view" where
  "whole_view s = \<lparr> sv_memory = s, sv_size = length s \<rparr>"

text \<open>
  The loop of the relative branch: \<open>for (auto const& path : resource_paths)\<close>, leaving at
  the first \<open>target\<close> that exists. When the loop runs to its end, \<open>full_path\<close> still has the
  value it was constructed with, the empty string. Nothing catches an exception of
  \<open>fs::exists\<close>, so it ends the loop and leaves \<open>find_file\<close>. The name is the C string
  that the caller read from \<open>file.data()\<close>.
\<close>

fun scan_resource_paths :: "filesystem \<Rightarrow> string list \<Rightarrow> string \<Rightarrow> fs_error + string" where
  "scan_resource_paths L [] name = Inr []"
| "scan_resource_paths L (path # rest) name =
     (let target = path_append L path name
      in case path_exists L target of
           Inl e \<Rightarrow> Inl e
         | Inr found \<Rightarrow> if found then Inr target else scan_resource_paths L rest name)"

text \<open>
  \<open>find_file\<close>, with the global vector \<open>resource_paths\<close> as an argument. The test for an
  absolute path and the relative branch read \<open>file.data()\<close>; the absolute branch copies
  \<open>std::string(file)\<close>. In the absolute branch the source tests \<open>fs::exists(full_path)\<close>,
  where \<open>full_path\<close> is the local result string, still empty at that point.
\<close>

definition find_file :: "filesystem \<Rightarrow> string list \<Rightarrow> string_view \<Rightarrow> fs_error + string" where
  "find_file L resource_paths file =
     (let full_path = [] in
      if is_absolute L (data_c_str file)
      then (case path_exists L full_path of
              Inl e \<Rightarrow> Inl e
            | Inr found \<Rightarrow> Inr (if found then view_chars file else full_path))
      else scan_resource_paths L resource_paths (data_c_str file))"

text \<open>
  A concrete filesystem for evaluating the definitions: POSIX path syntax (a path is
  absolute when it starts with a slash; appending a relative name puts one slash between
  the directory and the name), a finite list of the paths that exist, and the error
  that a path with a component of more than 255 characters meets.
\<close>

fun name_too_long :: "nat \<Rightarrow> string \<Rightarrow> bool" where
  "name_too_long n [] = (255 < n)"
| "name_too_long n (c # cs) =
     (if c = CHR ''/'' then 255 < n \<or> name_too_long 0 cs else name_too_long (Suc n) cs)"

definition posix_fs :: "string list \<Rightarrow> filesystem" where
  "posix_fs entries =
     \<lparr> is_absolute = (\<lambda>p. case p of [] \<Rightarrow> False | c # _ \<Rightarrow> c = CHR ''/''),
       path_append = (\<lambda>d f. if d = [] then f
                            else if last d = CHR ''/'' then d @ f
                            else d @ CHR ''/'' # f),
       path_exists = (\<lambda>p. if name_too_long 0 p then Inl (Filesystem_error ''File name too long'')
                            else Inr (p \<in> set entries)) \<rparr>"

subsection \<open>Properties of \<open>find_file\<close>\<close>

lemma scan_resource_paths_none:
  "(\<forall>d\<in>set paths. path_exists L (path_append L d name) = Inr False) \<Longrightarrow>
   scan_resource_paths L paths name = Inr []"
  by (induction paths) simp_all

lemma scan_resource_paths_skip:
  "(\<forall>d\<in>set pre. path_exists L (path_append L d name) = Inr False) \<Longrightarrow>
   scan_resource_paths L (pre @ rest) name = scan_resource_paths L rest name"
  by (induction pre) simp_all

text \<open>
  C6 (amended). For a relative file name, given as a view that spans the whole character
  string it points to: \<open>find_file\<close> tests the registered directories in order. As long as
  the tests find the file absent, it goes on; at the first directory under which the
  file exists it returns the path built from that directory, whatever directories
  follow; when the file is absent under every directory, the result is the empty string,
  an ordinary value and not an error; and when a test raises \<open>filesystem_error\<close> before
  the file is found, that error leaves \<open>find_file\<close>.
\<close>

theorem find_file_relative:
  assumes "\<not> is_absolute L (data_c_str file)" and "data_c_str file = view_chars file"
  shows "((\<forall>d\<in>set pre. path_exists L (path_append L d (view_chars file)) = Inr False) \<and>
          path_exists L (path_append L d (view_chars file)) = Inr True \<longrightarrow>
            find_file L (pre @ d # post) file = Inr (path_append L d (view_chars file))) \<and>
         ((\<forall>d\<in>set paths. path_exists L (path_append L d (view_chars file)) = Inr False) \<longrightarrow>
            find_file L paths file = Inr []) \<and>
         ((\<forall>d\<in>set pre. path_exists L (path_append L d (view_chars file)) = Inr False) \<and>
          path_exists L (path_append L d (view_chars file)) = Inl e \<longrightarrow>
            find_file L (pre @ d # post) file = Inl e)"
  using assms
  by (simp add: find_file_def scan_resource_paths_skip scan_resource_paths_none)

theorem find_file_relative_witness:
  "find_file (posix_fs [''/usr/share/app/logo.png'', ''/opt/app/logo.png''])
     [''/home/u/res'', ''/usr/share/app'', ''/opt/app''] (whole_view ''logo.png'')
     = Inr ''/usr/share/app/logo.png'' \<and>
   find_file (posix_fs [''/usr/share/app/logo.png''])
     [''/home/u/res'', ''/opt/app''] (whole_view ''logo.png'') = Inr [] \<and>
   find_file (posix_fs [''/opt/app/logo.png''])
     [''/home/u/res'', ''/opt/app''] (whole_view (replicate 256 CHR ''x''))
     = Inl (Filesystem_error ''File name too long'')"
proof -
  let ?L = "posix_fs [''/usr/share/app/logo.png'', ''/opt/app/logo.png'']"
  let ?M = "posix_fs [''/usr/share/app/logo.png'']"
  let ?f = "whole_view ''logo.png''"
  have v: "data_c_str ?f = ''logo.png''" "view_chars ?f = ''logo.png''"
    by (simp_all add: data_c_str_def view_chars_def whole_view_def)
  have rel: "\<not> is_absolute ?L (data_c_str ?f)" "\<not> is_absolute ?M (data_c_str ?f)"
    by (simp_all add: v posix_fs_def)
  have whole: "data_c_str ?f = view_chars ?f" by (simp add: v)
  have long: "\<not> name_too_long 0 ''/home/u/res/logo.png''"
    "\<not> name_too_long 0 ''/usr/share/app/logo.png''" "\<not> name_too_long 0 ''/opt/app/logo.png''"
    by simp_all
  have a: "find_file ?L ([''/home/u/res''] @ ''/usr/share/app'' # [''/opt/app'']) ?f
             = Inr (path_append ?L ''/usr/share/app'' (view_chars ?f))"
    using find_file_relative [OF rel(1) whole, of "[''/home/u/res'']" "''/usr/share/app''"] long
    by (simp add: v posix_fs_def)
  have b: "find_file ?M [''/home/u/res'', ''/opt/app''] ?f = Inr []"
    using find_file_relative [OF rel(2) whole, of _ _ _ "[''/home/u/res'', ''/opt/app'']"] long
    by (simp add: v posix_fs_def)
  let ?N = "posix_fs [''/opt/app/logo.png'']"
  let ?g = "whole_view (replicate 256 CHR ''x'')"
  have relg: "\<not> is_absolute ?N (data_c_str ?g)" by code_simp
  have wholeg: "data_c_str ?g = view_chars ?g" by code_simp
  have err: "path_exists ?N (path_append ?N ''/home/u/res'' (view_chars ?g))
               = Inl (Filesystem_error ''File name too long'')"
    by code_simp
  have c: "find_file ?N ([] @ ''/home/u/res'' # [''/opt/app'']) ?g
             = Inl (Filesystem_error ''File name too long'')"
    using find_file_relative [OF relg wholeg, of "[]" "''/home/u/res''" "[''/opt/app'']" _
        "Filesystem_error ''File name too long''"] err
    by simp
  from a b c show ?thesis by (simp add: v posix_fs_def)
qed

text \<open>
  An error is possible where the file exists nowhere: a relative name of 300 characters
  under one registered directory. And a view that ends before the character string does
  (here the first 8 characters of \<open>logo.png.bak\<close>) is looked up under the longer name,
  so the file that the view names is not found although it exists.
\<close>

theorem find_file_error_or_other_name:
  "\<not> is_absolute (posix_fs []) (replicate 300 CHR ''a'') \<and>
   find_file (posix_fs []) [''/usr/share/app''] (whole_view (replicate 300 CHR ''a''))
     = Inl (Filesystem_error ''File name too long'') \<and>
   view_chars \<lparr> sv_memory = ''logo.png.bak'', sv_size = 8 \<rparr> = ''logo.png'' \<and>
   path_exists (posix_fs [''/usr/share/app/logo.png'']) ''/usr/share/app/logo.png'' = Inr True \<and>
   find_file (posix_fs [''/usr/share/app/logo.png'']) [''/usr/share/app'']
     \<lparr> sv_memory = ''logo.png.bak'', sv_size = 8 \<rparr> = Inr []"
  by code_simp

text \<open>
  C8. For an absolute input path the existence test is made on the local result string,
  which is still empty, and not on the input: whether a file exists at the input path
  has no influence on the result. The empty path names no file, so the input is never
  copied into the result, and the result is the empty string.
\<close>

theorem find_file_absolute_empty:
  assumes "is_absolute L (data_c_str file)"
  shows "find_file L resource_paths file =
           (case path_exists L [] of
              Inl e \<Rightarrow> Inl e
            | Inr found \<Rightarrow> Inr (if found then view_chars file else [])) \<and>
         (path_exists L [] = Inr False \<longrightarrow> find_file L resource_paths file = Inr [])"
  using assms by (simp add: find_file_def)

theorem find_file_absolute_empty_witness:
  "path_exists (posix_fs [''/etc/app/logo.png'']) ''/etc/app/logo.png'' = Inr True \<and>
   find_file (posix_fs [''/etc/app/logo.png'']) [''/etc/app''] (whole_view ''/etc/app/logo.png'')
     = Inr []"
proof -
  let ?L = "posix_fs [''/etc/app/logo.png'']"
  let ?f = "whole_view ''/etc/app/logo.png''"
  have "is_absolute ?L (data_c_str ?f)" and "path_exists ?L [] = Inr False"
    by (simp_all add: posix_fs_def data_c_str_def whole_view_def)
  with find_file_absolute_empty [of ?L ?f "[''/etc/app'']"]
  show ?thesis by (simp add: posix_fs_def)
qed

section \<open>Proxies: \<open>find_subject\<close> and \<open>find_element\<close> (lib/include/elements/element/proxy.hpp)\<close>

text \<open>
  Elements are reached through pointers (\<open>element*\<close>), and the two utilities inspect the
  dynamic type of what a pointer refers to. The model has a store of objects. An object
  carries its run-time type information, the names of its dynamic class and of all the
  classes that class derives from, and the address of the element that its \<open>subject()\<close>
  returns. \<open>subject()\<close> is declared in \<open>proxy_base\<close> only, so \<open>subject_ref\<close> is read only
  for objects whose type information lists \<open>proxy_base\<close>. Nothing in the header keeps a
  chain of subjects from running in a circle (\<open>subject()\<close> is a pure virtual function), so
  the store is an arbitrary function and the loop of \<open>find_subject\<close> is a partial function:
  the value \<open>None\<close> stands for a loop that does not return.
\<close>

type_synonym addr = nat

datatype pointer = Null | Ref addr

record object =
  type_info :: "string list"
  subject_ref :: addr

type_synonym store = "addr \<Rightarrow> object"

text \<open>
  \<open>dynamic_cast<T*>(p)\<close>: null for a null pointer and for an object whose class is not \<open>T\<close>
  and does not derive from it, the pointer itself otherwise.
\<close>

definition dynamic_cast :: "store \<Rightarrow> string \<Rightarrow> pointer \<Rightarrow> pointer" where
  "dynamic_cast h T p =
     (case p of
        Null \<Rightarrow> Null
      | Ref a \<Rightarrow> if T \<in> set (type_info (h a)) then Ref a else Null)"

text \<open>
  The \<open>while (proxy)\<close> loop of \<open>find_subject\<close>; the argument \<open>proxy\<close> is the loop
  variable, a \<open>proxy_base*\<close>.
\<close>

partial_function (option)
  find_subject_loop :: "store \<Rightarrow> string \<Rightarrow> pointer \<Rightarrow> pointer option" where
  "find_subject_loop h T proxy =
     (case proxy of
        Null \<Rightarrow> Some Null
      | Ref p \<Rightarrow>
          (let subject = Ref (subject_ref (h p));
               e = dynamic_cast h T subject
           in if e \<noteq> Null then Some e
              else find_subject_loop h T (dynamic_cast h ''proxy_base'' subject)))"

definition find_subject :: "store \<Rightarrow> string \<Rightarrow> pointer \<Rightarrow> pointer option" where
  "find_subject h T e0 = find_subject_loop h T (dynamic_cast h ''proxy_base'' e0)"

definition find_element :: "store \<Rightarrow> string \<Rightarrow> pointer \<Rightarrow> pointer option" where
  "find_element h T e0 =
     (let e = dynamic_cast h T e0
      in if e \<noteq> Null then Some e else find_subject h T e0)"

text \<open>
  For stating the properties: whether the object at an address can be cast to \<open>T\<close>, and
  the chain of subjects below a pointer, outermost first, followed for at most \<open>n\<close>
  proxies. The chain stops early at an element that is not a proxy.
\<close>

definition castable :: "store \<Rightarrow> string \<Rightarrow> addr \<Rightarrow> bool" where
  "castable h T a = (dynamic_cast h T (Ref a) = Ref a)"

fun subject_chain :: "store \<Rightarrow> nat \<Rightarrow> pointer \<Rightarrow> addr list" where
  "subject_chain h 0 e = []"
| "subject_chain h (Suc n) e =
     (case dynamic_cast h ''proxy_base'' e of
        Null \<Rightarrow> []
      | Ref p \<Rightarrow> subject_ref (h p) # subject_chain h n (Ref (subject_ref (h p))))"

text \<open>
  A store for evaluating the definitions, after \<open>make_vtile_aligns\<close> of
  examples/layout/main.cpp: a margin (address 0) around a minimum-size proxy (address 1)
  around a vertical tile (address 2), which is a composite and no proxy.
\<close>

definition layout_store :: store where
  "layout_store a =
     (if a = 0 then
        \<lparr> type_info = [''margin_element'', ''proxy'', ''proxy_base'', ''element''],
          subject_ref = 1 \<rparr>
      else if a = 1 then
        \<lparr> type_info = [''hmin_size_element'', ''proxy'', ''proxy_base'', ''element''],
          subject_ref = 2 \<rparr>
      else
        \<lparr> type_info = [''vtile_composite'', ''vtile_element'', ''composite_base'', ''element''],
          subject_ref = a \<rparr>)"

subsection \<open>Properties of the traversal\<close>

lemma dynamic_cast_castable: "castable h T a \<Longrightarrow> dynamic_cast h T (Ref a) = Ref a"
  by (simp add: castable_def)

lemma dynamic_cast_not_castable: "\<not> castable h T a \<Longrightarrow> dynamic_cast h T (Ref a) = Null"
  by (simp add: castable_def dynamic_cast_def split: if_splits)

lemma find_subject_loop_Null: "find_subject_loop h T Null = Some Null"
  by (subst find_subject_loop.simps) simp

lemma find_subject_loop_match:
  "castable h T (subject_ref (h p)) \<Longrightarrow>
   find_subject_loop h T (Ref p) = Some (Ref (subject_ref (h p)))"
  by (subst find_subject_loop.simps) (simp add: dynamic_cast_castable)

lemma find_subject_loop_step:
  "\<not> castable h T (subject_ref (h p)) \<Longrightarrow>
   find_subject_loop h T (Ref p) =
   find_subject_loop h T (dynamic_cast h ''proxy_base'' (Ref (subject_ref (h p))))"
  by (subst find_subject_loop.simps) (simp add: dynamic_cast_not_castable)

lemma subject_chain_ConsD:
  "subject_chain h n e = s # rest \<Longrightarrow>
   \<exists>m p. n = Suc m \<and> dynamic_cast h ''proxy_base'' e = Ref p \<and> subject_ref (h p) = s \<and>
         subject_chain h m (Ref s) = rest"
  by (cases n) (auto split: pointer.splits)

lemma find_subject_loop_first_match:
  "subject_chain h n e = pre @ s # post \<Longrightarrow>
   \<forall>a\<in>set pre. \<not> castable h T a \<Longrightarrow>
   castable h T s \<Longrightarrow>
   find_subject_loop h T (dynamic_cast h ''proxy_base'' e) = Some (Ref s)"
proof (induction pre arbitrary: n e)
  case Nil
  then obtain p where "dynamic_cast h ''proxy_base'' e = Ref p" "subject_ref (h p) = s"
    using subject_chain_ConsD [of h n e s post] by auto
  with Nil(3) show ?case by (simp add: find_subject_loop_match)
next
  case (Cons a pre)
  then obtain m p where p: "dynamic_cast h ''proxy_base'' e = Ref p"
    and a: "subject_ref (h p) = a"
    and rest: "subject_chain h m (Ref a) = pre @ s # post"
    using subject_chain_ConsD [of h n e a "pre @ s # post"] by auto
  have "find_subject_loop h T (dynamic_cast h ''proxy_base'' (Ref a)) = Some (Ref s)"
    using Cons.IH [OF rest] Cons.prems by simp
  moreover have "\<not> castable h T (subject_ref (h p))"
    using Cons.prems(2) a by simp
  ultimately show ?case
    by (simp add: p find_subject_loop_step a)
qed

lemma find_subject_loop_no_match:
  "length (subject_chain h n e) < n \<Longrightarrow>
   \<forall>a\<in>set (subject_chain h n e). \<not> castable h T a \<Longrightarrow>
   find_subject_loop h T (dynamic_cast h ''proxy_base'' e) = Some Null"
proof (induction n arbitrary: e)
  case 0
  then show ?case by simp
next
  case (Suc n)
  show ?case
  proof (cases "dynamic_cast h ''proxy_base'' e")
    case Null
    then show ?thesis by (simp add: find_subject_loop_Null)
  next
    case (Ref p)
    let ?s = "subject_ref (h p)"
    from Suc.prems Ref have len: "length (subject_chain h n (Ref ?s)) < n"
      and nom: "\<not> castable h T ?s"
      and rest: "\<forall>a\<in>set (subject_chain h n (Ref ?s)). \<not> castable h T a"
      by simp_all
    from Suc.IH [OF len rest] nom show ?thesis
      by (simp add: Ref find_subject_loop_step)
  qed
qed

lemma layout_store_chain:
  "subject_chain layout_store 3 (Ref 0) = [1, 2]"
  by (simp add: numeral_3_eq_3 layout_store_def dynamic_cast_def)

lemma layout_store_castable:
  "castable layout_store T a \<longleftrightarrow> T \<in> set (type_info (layout_store a))"
  by (simp add: castable_def dynamic_cast_def)

text \<open>
  C5. \<open>find_subject\<close> walks the subjects below \<open>e\<close> from the outermost inwards. It returns
  the first subject that can be cast to the requested type, whatever lies beneath that
  subject; and it returns null when the chain ends at an element that is not a proxy
  and no subject on the way could be cast. (For a null \<open>e\<close> the chain is empty.)
\<close>

theorem find_subject_first_match:
  "(subject_chain h n e = pre @ s # post \<and>
    (\<forall>a\<in>set pre. \<not> castable h T a) \<and> castable h T s
      \<longrightarrow> find_subject h T e = Some (Ref s)) \<and>
   (length (subject_chain h n e) < n \<and>
    (\<forall>a\<in>set (subject_chain h n e). \<not> castable h T a)
      \<longrightarrow> find_subject h T e = Some Null)"
  unfolding find_subject_def
  using find_subject_loop_first_match [of h n e pre s post T]
    find_subject_loop_no_match [of h n e T]
  by blast

theorem find_subject_first_match_witness:
  "find_subject layout_store ''proxy_base'' (Ref 0) = Some (Ref 1) \<and>
   find_subject layout_store ''vtile_element'' (Ref 0) = Some (Ref 2) \<and>
   find_subject layout_store ''basic_button'' (Ref 0) = Some Null \<and>
   find_subject layout_store ''vtile_element'' Null = Some Null"
proof -
  have a: "find_subject layout_store ''proxy_base'' (Ref 0) = Some (Ref 1)"
    using find_subject_first_match [of layout_store 3 "Ref 0" "[]" 1 "[2]" "''proxy_base''"]
    by (simp add: layout_store_chain layout_store_castable) (simp add: layout_store_def)
  have b: "find_subject layout_store ''vtile_element'' (Ref 0) = Some (Ref 2)"
    using find_subject_first_match [of layout_store 3 "Ref 0" "[1]" 2 "[]" "''vtile_element''"]
    by (simp add: layout_store_chain layout_store_castable) (simp add: layout_store_def)
  have c: "find_subject layout_store ''basic_button'' (Ref 0) = Some Null"
    using find_subject_first_match [of layout_store 3 "Ref 0" _ _ _ "''basic_button''"]
    by (simp add: layout_store_chain layout_store_castable) (simp add: layout_store_def)
  have d: "find_subject layout_store ''vtile_element'' Null = Some Null"
    using find_subject_first_match [of layout_store "Suc 0" Null _ _ _ "''vtile_element''"]
    by (simp add: dynamic_cast_def)
  from a b c d show ?thesis by simp
qed

text \<open>
  What \<open>find_subject\<close> returns, when it is not null, is one of the subjects beneath \<open>e\<close>.
\<close>

lemma dynamic_cast_idem: "dynamic_cast h T (dynamic_cast h T e) = dynamic_cast h T e"
  by (cases e) (simp_all add: dynamic_cast_def)

lemma subject_chain_cast:
  "subject_chain h n (dynamic_cast h ''proxy_base'' e) = subject_chain h n e"
  by (cases n) (simp_all add: dynamic_cast_idem)

lemma subject_chain_mono:
  "r \<in> set (subject_chain h n e) \<Longrightarrow> r \<in> set (subject_chain h (Suc n) e)"
proof (induction n arbitrary: e)
  case 0
  then show ?case by simp
next
  case (Suc n)
  then show ?case by (auto split: pointer.splits)
qed

lemma find_subject_loop_in_chain:
  assumes "find_subject_loop h T proxy = Some y"
  shows "dynamic_cast h ''proxy_base'' proxy = proxy \<longrightarrow>
         (\<forall>r. y = Ref r \<longrightarrow> (\<exists>n. r \<in> set (subject_chain h n proxy)))"
proof (rule find_subject_loop.raw_induct
    [where P = "\<lambda>h T proxy y. dynamic_cast h ''proxy_base'' proxy = proxy \<longrightarrow>
         (\<forall>r. y = Ref r \<longrightarrow> (\<exists>n. r \<in> set (subject_chain h n proxy)))", OF _ assms])
  fix loop :: "store \<Rightarrow> string \<Rightarrow> pointer \<Rightarrow> pointer option" and h T proxy y
  assume IH: "\<And>h T proxy y. loop h T proxy = Some y \<Longrightarrow>
                dynamic_cast h ''proxy_base'' proxy = proxy \<longrightarrow>
                (\<forall>r. y = Ref r \<longrightarrow> (\<exists>n. r \<in> set (subject_chain h n proxy)))"
    and body: "(case proxy of
                  Null \<Rightarrow> Some Null
                | Ref p \<Rightarrow>
                    let subject = Ref (subject_ref (h p));
                        e = dynamic_cast h T subject
                    in if e \<noteq> Null then Some e
                       else loop h T (dynamic_cast h ''proxy_base'' subject)) = Some y"
  show "dynamic_cast h ''proxy_base'' proxy = proxy \<longrightarrow>
        (\<forall>r. y = Ref r \<longrightarrow> (\<exists>n. r \<in> set (subject_chain h n proxy)))"
  proof (intro impI allI)
    fix r
    assume pb: "dynamic_cast h ''proxy_base'' proxy = proxy" and y: "y = Ref r"
    show "\<exists>n. r \<in> set (subject_chain h n proxy)"
    proof (cases proxy)
      case Null
      with body y show ?thesis by simp
    next
      case (Ref p)
      let ?s = "subject_ref (h p)"
      let ?q = "dynamic_cast h ''proxy_base'' (Ref ?s)"
      have chain: "subject_chain h (Suc n) proxy = ?s # subject_chain h n (Ref ?s)" for n
        using pb Ref by simp
      show ?thesis
      proof (cases "dynamic_cast h T (Ref ?s) = Null")
        case False
        with body Ref y have "Ref r = dynamic_cast h T (Ref ?s)" by (simp add: Let_def)
        then have "r = ?s" by (simp add: dynamic_cast_def split: if_splits)
        with chain [of 0] show ?thesis by (intro exI [of _ "Suc 0"]) simp
      next
        case True
        with body Ref have run: "loop h T ?q = Some y" by (simp add: Let_def)
        from IH [OF run] y obtain n where "r \<in> set (subject_chain h n ?q)"
          by (auto simp: dynamic_cast_idem)
        then have "r \<in> set (subject_chain h n (Ref ?s))" by (simp add: subject_chain_cast)
        with chain [of n] show ?thesis by (intro exI [of _ "Suc n"]) simp
      qed
    qed
  qed
qed

lemma find_subject_in_chain:
  "find_subject h T e = Some (Ref r) \<Longrightarrow> \<exists>n. r \<in> set (subject_chain h n e)"
  using find_subject_loop_in_chain [of h T "dynamic_cast h ''proxy_base'' e" "Ref r"]
  by (simp add: find_subject_def dynamic_cast_idem subject_chain_cast)

lemma layout_store_chain_bound: "set (subject_chain layout_store n (Ref 0)) \<subseteq> {1, 2}"
proof -
  have two: "subject_chain layout_store k (Ref 2) = []" for k
    by (cases k) (simp_all add: layout_store_def dynamic_cast_def)
  have one: "set (subject_chain layout_store m (Ref 1)) \<subseteq> {2}" for m
    by (cases m) (simp_all add: layout_store_def dynamic_cast_def two)
  show ?thesis
    using one by (cases n) (auto simp: layout_store_def dynamic_cast_def)
qed

text \<open>
  C9 (amended). When \<open>e\<close> itself can be cast to the requested type, \<open>find_element\<close> returns
  \<open>e\<close>, without calling \<open>subject()\<close>. \<open>find_subject\<close> does not test \<open>e\<close> against the
  requested type: for an \<open>e\<close> that is not a proxy it returns null, also when \<open>e\<close> is of the
  requested type; for a proxy \<open>e\<close> its result is that of \<open>find_element\<close> on the subject of
  \<open>e\<close>; and it never returns \<open>e\<close>, of whatever type \<open>e\<close> is, unless \<open>e\<close> is among its own
  subjects.
\<close>

theorem find_element_self:
  "(castable h T a \<longrightarrow> find_element h T (Ref a) = Some (Ref a)) \<and>
   (\<not> castable h ''proxy_base'' a \<longrightarrow> find_subject h T (Ref a) = Some Null) \<and>
   (castable h ''proxy_base'' a \<longrightarrow>
      find_subject h T (Ref a) = find_element h T (Ref (subject_ref (h a)))) \<and>
   ((\<forall>n. a \<notin> set (subject_chain h n (Ref a))) \<longrightarrow> find_subject h T (Ref a) \<noteq> Some (Ref a))"
proof (intro conjI impI)
  assume "castable h T a"
  then show "find_element h T (Ref a) = Some (Ref a)"
    by (simp add: find_element_def dynamic_cast_castable)
next
  assume "\<not> castable h ''proxy_base'' a"
  then show "find_subject h T (Ref a) = Some Null"
    by (simp add: find_subject_def dynamic_cast_not_castable find_subject_loop_Null)
next
  assume pb: "castable h ''proxy_base'' a"
  show "find_subject h T (Ref a) = find_element h T (Ref (subject_ref (h a)))"
  proof (cases "castable h T (subject_ref (h a))")
    case True
    then show ?thesis
      by (simp add: find_subject_def find_element_def dynamic_cast_castable pb
          find_subject_loop_match)
  next
    case False
    then show ?thesis
      by (simp add: find_subject_def find_element_def dynamic_cast_castable
          dynamic_cast_not_castable pb find_subject_loop_step)
  qed
next
  assume "\<forall>n. a \<notin> set (subject_chain h n (Ref a))"
  with find_subject_in_chain [of h T "Ref a" a]
  show "find_subject h T (Ref a) \<noteq> Some (Ref a)" by blast
qed

theorem find_element_self_witness:
  "castable layout_store ''vtile_element'' 2 \<and>
   find_element layout_store ''vtile_element'' (Ref 2) = Some (Ref 2) \<and>
   find_subject layout_store ''vtile_element'' (Ref 2) = Some Null \<and>
   castable layout_store ''proxy_base'' 0 \<and>
   find_element layout_store ''proxy_base'' (Ref 0) = Some (Ref 0) \<and>
   find_subject layout_store ''proxy_base'' (Ref 0) = Some (Ref 1) \<and>
   find_subject layout_store ''proxy_base'' (Ref 0) \<noteq> Some (Ref 0) \<and>
   find_subject layout_store ''margin_element'' (Ref 0) \<noteq> Some (Ref 0)"
proof -
  have c2: "castable layout_store ''vtile_element'' 2" "\<not> castable layout_store ''proxy_base'' 2"
    and c1: "castable layout_store ''proxy_base'' 1" "subject_ref (layout_store 0) = 1"
    and c0: "castable layout_store ''proxy_base'' 0"
    by (simp_all add: layout_store_castable) (simp_all add: layout_store_def)
  have apart: "\<forall>n. 0 \<notin> set (subject_chain layout_store n (Ref 0))"
  proof
    fix n
    from layout_store_chain_bound [of n]
    show "0 \<notin> set (subject_chain layout_store n (Ref 0))" by fastforce
  qed
  from find_element_self [of layout_store "''vtile_element''" 2] c2
  have a: "find_element layout_store ''vtile_element'' (Ref 2) = Some (Ref 2)"
    and b: "find_subject layout_store ''vtile_element'' (Ref 2) = Some Null"
    by simp_all
  from find_element_self [of layout_store "''proxy_base''" 0] c0 apart
  have c: "find_element layout_store ''proxy_base'' (Ref 0) = Some (Ref 0)"
    and d: "find_subject layout_store ''proxy_base'' (Ref 0)
              = find_element layout_store ''proxy_base'' (Ref (subject_ref (layout_store 0)))"
    and f: "find_subject layout_store ''proxy_base'' (Ref 0) \<noteq> Some (Ref 0)"
    by blast+
  from find_element_self [of layout_store "''margin_element''" 0] apart
  have g: "find_subject layout_store ''margin_element'' (Ref 0) \<noteq> Some (Ref 0)" by simp
  from find_element_self [of layout_store "''proxy_base''" 1] c1
  have "find_element layout_store ''proxy_base'' (Ref 1) = Some (Ref 1)" by simp
  with d c1 have e: "find_subject layout_store ''proxy_base'' (Ref 0) = Some (Ref 1)" by simp
  from c2 c0 a b c e f g show ?thesis by simp
qed

text \<open>
  A proxy that is its own subject, for the case that is left out: \<open>find_subject\<close> finds
  the proxy itself.
\<close>

definition self_store :: store where
  "self_store a =
     \<lparr> type_info = [''self_proxy'', ''proxy_base'', ''element''], subject_ref = a \<rparr>"

theorem find_subject_own_subject:
  "castable self_store ''self_proxy'' 0 \<and>
   subject_chain self_store 1 (Ref 0) = [0] \<and>
   find_subject self_store ''self_proxy'' (Ref 0) = Some (Ref 0)"
proof -
  have c: "castable self_store ''self_proxy'' 0" "castable self_store ''proxy_base'' 0"
    by (simp_all add: castable_def dynamic_cast_def self_store_def)
  have s: "subject_ref (self_store 0) = 0" by (simp add: self_store_def)
  have "find_subject_loop self_store ''self_proxy'' (Ref 0) = Some (Ref 0)"
    using find_subject_loop_match [of self_store "''self_proxy''" 0] c s by simp
  with c s show ?thesis
    by (simp add: find_subject_def dynamic_cast_castable)
qed

section \<open>Proxy delegation (the member functions of \<open>proxy_base\<close>)\<close>

text \<open>
  proxy.hpp declares the member functions of \<open>proxy_base\<close>; their bodies, and the class
  \<open>element\<close> that \<open>proxy_base\<close> derives from, are in files that are not among the sources
  at hand.
\<close>

text \<open>
  Modelled from the spec: the capability interface of \<open>element\<close> (4.1), as far as the
  delegation property speaks of it. \<open>limits\<close> is a pure function of the context,
  \<open>stretch\<close> is a value, and \<open>draw\<close> is side effect only: it transforms the drawing
  context it is given. The types of contexts, limits and stretch are left open.
\<close>

record ('b, 'c, 'l, 's) element =
  limits :: "'b \<Rightarrow> 'l"
  stretch :: "'s"
  draw :: "'c \<Rightarrow> 'c"

text \<open>
  Modelled from the spec: the hook points \<open>prepare_subject\<close> and \<open>restore_subject\<close> of a
  proxy, which are declared in proxy.hpp and defined elsewhere. The spec (4.2) has them
  invoked immediately before and after the delegated call, to adjust the context and to
  undo the adjustment.
\<close>

record 'c proxy_hooks =
  prepare_subject :: "'c \<Rightarrow> 'c"
  restore_subject :: "'c \<Rightarrow> 'c"

text \<open>
  Modelled from the spec: the hooks of \<open>proxy_base\<close> itself, which a subclass may
  override. An unmodified proxy forwards unchanged (3), so they leave the context as it
  is.
\<close>

definition default_hooks :: "'c proxy_hooks" where
  "default_hooks = \<lparr> prepare_subject = (\<lambda>ctx. ctx), restore_subject = (\<lambda>ctx. ctx) \<rparr>"

text \<open>
  Modelled from the spec: \<open>proxy_base::limits\<close>, \<open>proxy_base::stretch\<close> and
  \<open>proxy_base::draw\<close>, whose bodies are missing. By the spec (3 and 4.2) a proxy forwards
  every capability verbatim to its subject, and the hooks run immediately before and
  after the delegated call.
\<close>

definition proxy_base :: "'c proxy_hooks \<Rightarrow> ('b, 'c, 'l, 's) element \<Rightarrow> ('b, 'c, 'l, 's) element" where
  "proxy_base hooks subject =
     \<lparr> limits = (\<lambda>ctx. limits subject ctx),
       stretch = stretch subject,
       draw = (\<lambda>ctx. restore_subject hooks (draw subject (prepare_subject hooks ctx))) \<rparr>"

text \<open>
  C4. A proxy that overrides nothing is transparent: \<open>limits\<close> and \<open>stretch\<close> return what
  the subject returns, and \<open>draw\<close> leaves the drawing context as the subject's \<open>draw\<close>
  leaves it. The same holds through any number of such proxies stacked on the subject.
\<close>

theorem proxy_base_transparent:
  "limits (proxy_base default_hooks S) ctx = limits S ctx \<and>
   stretch (proxy_base default_hooks S) = stretch S \<and>
   draw (proxy_base default_hooks S) dctx = draw S dctx \<and>
   limits ((proxy_base default_hooks ^^ n) S) ctx = limits S ctx \<and>
   stretch ((proxy_base default_hooks ^^ n) S) = stretch S \<and>
   draw ((proxy_base default_hooks ^^ n) S) dctx = draw S dctx"
proof -
  have one: "limits (proxy_base default_hooks E) = limits E \<and>
             stretch (proxy_base default_hooks E) = stretch E \<and>
             draw (proxy_base default_hooks E) = draw E" for E :: "('b, 'c, 'l, 's) element"
    by (simp add: proxy_base_def default_hooks_def)
  have many: "limits ((proxy_base default_hooks ^^ n) S) = limits S \<and>
              stretch ((proxy_base default_hooks ^^ n) S) = stretch S \<and>
              draw ((proxy_base default_hooks ^^ n) S) = draw S"
    by (induction n) (simp_all add: one)
  from one [of S] many show ?thesis by simp
qed

section \<open>Fonts: \<open>match\<close> and the constructor of \<open>font\<close> (lib/src/support/font.cpp)\<close>

subsection \<open>Trimming and splitting the family list\<close>

text \<open>
  \<open>std::isspace\<close> in the C locale: space, tab, line feed, vertical tab, form feed and
  carriage return. \<open>ltrim\<close> erases the leading white space of a string, \<open>rtrim\<close> the
  trailing white space.
\<close>

definition isspace :: "char \<Rightarrow> bool" where
  "isspace ch = (ch \<in> set [CHR '' '', CHR 0x09, CHR 0x0A, CHR 0x0B, CHR 0x0C, CHR 0x0D])"

definition ltrim :: "string \<Rightarrow> string" where
  "ltrim s = dropWhile isspace s"

definition rtrim :: "string \<Rightarrow> string" where
  "rtrim s = rev (dropWhile isspace (rev s))"

definition trim :: "string \<Rightarrow> string" where
  "trim s = rtrim (ltrim s)"

text \<open>
  The fields that \<open>while (getline(str, family, ','))\<close> reads from a string stream, in
  order: a field ends at the delimiter, which is dropped, or at the end of the string.
  \<open>getline\<close> fails, and the loop ends, when nothing is left to read, so a string that
  ends with the delimiter has no empty last field.
\<close>

function getline_fields :: "char \<Rightarrow> string \<Rightarrow> string list" where
  "getline_fields delim [] = []"
| "getline_fields delim (c # cs) =
     (let field = takeWhile (\<lambda>x. x \<noteq> delim) (c # cs)
      in case dropWhile (\<lambda>x. x \<noteq> delim) (c # cs) of
           [] \<Rightarrow> [field]
         | _ # rest \<Rightarrow> field # getline_fields delim rest)"
  by pat_completeness auto
termination
proof (relation "measure (\<lambda>(delim, s). length s)")
  fix delim :: char and c cs field x21 x22
  assume "dropWhile (\<lambda>x. x \<noteq> delim) (c # cs) = x21 # x22"
  then have "length (x21 # x22) \<le> length (c # cs)"
    by (metis length_dropWhile_le)
  then show "((delim, x22), (delim, c # cs)) \<in> measure (\<lambda>(delim, s). length s)"
    by simp
qed simp

subsection \<open>The font map and the description\<close>

text \<open>
  \<open>font_entry\<close> as the source declares it (the member \<open>file\<close> is called \<open>font_file\<close>
  here). The font map, a \<open>std::map\<close> from family names to vectors of entries, is an
  association list read with \<open>map_of\<close>.
\<close>

record font_entry =
  full_name :: string
  font_file :: string
  weight :: "8 word"
  slant :: "8 word"
  stretch :: "8 word"

type_synonym font_map_type = "(string \<times> font_entry list) list"

text \<open>
  \<open>font_descr\<close> is declared in a header that is not among the sources at hand. \<open>match\<close>
  reads its members \<open>_families\<close>, \<open>_weight\<close>, \<open>_slant\<close> and \<open>_stretch\<close>, the last three
  through a conversion to \<open>int\<close>; the record holds the family list and the three
  converted values. \<open>descr_in_range\<close> says that the three values are those of 8-bit
  unsigned members, like the members of \<open>font_entry\<close> that they are compared with.
\<close>

record font_descr =
  families :: string
  descr_weight :: int
  descr_slant :: int
  descr_stretch :: int

definition descr_in_range :: "font_descr \<Rightarrow> bool" where
  "descr_in_range descr =
     (0 \<le> descr_weight descr \<and> descr_weight descr \<le> 255 \<and>
      0 \<le> descr_slant descr \<and> descr_slant descr \<le> 255 \<and>
      0 \<le> descr_stretch descr \<and> descr_stretch descr \<le> 255)"

subsection \<open>Matching\<close>

text \<open>
  The biased score of an entry (lower is better), a \<open>double\<close> in the source. Every
  value it takes is a multiple of one quarter below 1100 when the description is in
  range, which \<open>double\<close> represents exactly, so the rationals compute the same values and
  the same comparisons.
\<close>

definition score :: "font_descr \<Rightarrow> font_entry \<Rightarrow> rat" where
  "score descr item =
     of_int \<bar>descr_weight descr - uint (weight item)\<bar> * 1 +
     of_int \<bar>descr_slant descr - uint (slant item)\<bar> * 3 +
     of_int \<bar>descr_stretch descr - uint (stretch item)\<bar> * (1 / 4)"

text \<open>
  The inner loop over the entries of one family. \<open>min\<close> is an \<open>int\<close> in the source: the
  assignment \<open>min = diff\<close> truncates the score, which is never negative. The result
  \<open>None\<close> stands for \<open>best_match\<close> being the end iterator.
\<close>

fun best_match_loop :: "font_descr \<Rightarrow> font_entry list \<Rightarrow> int \<Rightarrow> font_entry option \<Rightarrow> font_entry option" where
  "best_match_loop descr [] mn best_match = best_match"
| "best_match_loop descr (item # items) mn best_match =
     (let diff = score descr item
      in if diff < of_int mn
         then best_match_loop descr items \<lfloor>diff\<rfloor> (Some item)
         else best_match_loop descr items mn best_match)"

text \<open>
  The outer loop over the fields of the family list, each trimmed before it is looked
  up. The result \<open>None\<close> is the null pointer.
\<close>

fun match_families :: "font_map_type \<Rightarrow> font_descr \<Rightarrow> string list \<Rightarrow> font_entry option" where
  "match_families fm descr [] = None"
| "match_families fm descr (family # rest) =
     (case map_of fm (trim family) of
        Some entries \<Rightarrow>
          (case best_match_loop descr entries 10000 None of
             Some e \<Rightarrow> Some e
           | None \<Rightarrow> match_families fm descr rest)
      | None \<Rightarrow> match_families fm descr rest)"

text \<open>
  What is outside the repository: the global vector \<open>font_paths()\<close> as the application
  filled it; the value of \<open>fs::current_path() / "resources"\<close>, where \<open>current_path\<close> is
  the overload that throws \<open>filesystem_error\<close>; the fonts that fontconfig lists once the
  directories have been added to its configuration (each given by its family name and
  the entry that \<open>init_font_map\<close> builds from it, with the attributes already
  normalised); the status that \<open>FT_Init_FreeType\<close> returns when the function-local
  static \<open>font_loader\<close> is constructed; and the creation of a font face for an entry
  (\<open>font_loader.load\<close>), which yields a handle or null. Handles are numbers. The model is
  of the build for neither Apple nor Windows systems, which add a directory of their own
  to the paths.
\<close>

record font_env =
  font_paths :: "string list"
  current_resources :: "fs_error + string"
  fc_fonts :: "string list \<Rightarrow> (string \<times> font_entry) list"
  ft_init_status :: int
  load_face :: "font_entry \<Rightarrow> nat option"

text \<open>
  The directories that \<open>init_font_map\<close> adds to the fontconfig configuration:
  \<open>if (paths.empty()) paths.push_back(fs::current_path() / "resources");\<close>. The exception
  of \<open>current_path\<close> is not caught.
\<close>

definition app_font_dirs :: "font_env \<Rightarrow> fs_error + string list" where
  "app_font_dirs env =
     (let paths = font_paths env
      in if paths = []
         then (case current_resources env of
                 Inl e \<Rightarrow> Inl e
               | Inr dir \<Rightarrow> Inr (paths @ [dir]))
         else Inr paths)"

text \<open>
  The loop of \<open>init_font_map\<close> over the listed fonts: each is appended to the entries of
  its trimmed family name.
\<close>

definition add_font :: "font_map_type \<Rightarrow> string \<times> font_entry \<Rightarrow> font_map_type" where
  "add_font fm font =
     (let entry = snd font; key = trim (fst font)
      in case map_of fm key of
           Some entries \<Rightarrow> AList.update key (entries @ [entry]) fm
         | None \<Rightarrow> AList.update key ([] @ [entry]) fm)"

definition init_font_map :: "font_env \<Rightarrow> font_map_type \<Rightarrow> fs_error + font_map_type" where
  "init_font_map env fm =
     (case app_font_dirs env of
        Inl e \<Rightarrow> Inl e
      | Inr paths \<Rightarrow> Inr (foldl add_font fm (fc_fonts env paths)))"

text \<open>
  \<open>match\<close> starts with \<open>if (font_map().empty()) init_font_map();\<close>. The map that the
  rest of \<open>match\<close> reads is the result of this step; \<open>match\<close> returns it next to the
  pointer, since the map is global state. An exception of \<open>init_font_map\<close> leaves
  \<open>match\<close>.
\<close>

definition consulted_font_map :: "font_env \<Rightarrow> font_map_type \<Rightarrow> fs_error + font_map_type" where
  "consulted_font_map env fm = (if fm = [] then init_font_map env fm else Inr fm)"

definition match :: "font_env \<Rightarrow> font_map_type \<Rightarrow> font_descr \<Rightarrow> fs_error + (font_entry option \<times> font_map_type)" where
  "match env fm descr =
     (case consulted_font_map env fm of
        Inl e \<Rightarrow> Inl e
      | Inr fm' \<Rightarrow>
          Inr (match_families fm' descr (getline_fields CHR '','' (families descr)), fm'))"

text \<open>
  The constructor \<open>font::font(font_descr)\<close>. The state is the two global maps. The
  constructor of the static \<open>font_loader\<close> asserts that the library was initialised
  (\<open>CYCFI_ASSERT(status == 0, ...)\<close>), before \<open>match\<close> is called; an exception of \<open>match\<close>
  leaves the constructor. The result is the new font's \<open>_handle\<close> (\<open>None\<close> is the null
  handle) and the state after the call.
\<close>

record font_state =
  font_map :: font_map_type
  cairo_font_map :: "(string \<times> nat) list"

datatype error = Assertion_failure | Filesystem_exception fs_error

definition font_ctor :: "font_env \<Rightarrow> font_state \<Rightarrow> font_descr \<Rightarrow> error + (nat option \<times> font_state)" where
  "font_ctor env st descr =
     (if ft_init_status env \<noteq> 0 then Inl Assertion_failure
      else
        case match env (font_map st) descr of
          Inl e \<Rightarrow> Inl (Filesystem_exception e)
        | Inr (match_ptr, fm) \<Rightarrow>
            (let st1 = st\<lparr>font_map := fm\<rparr>
             in case match_ptr of
                  Some e \<Rightarrow>
                    (case map_of (cairo_font_map st1) (full_name e) of
                       Some h \<Rightarrow> Inr (Some h, st1)
                     | None \<Rightarrow>
                         (case load_face env e of
                            Some h \<Rightarrow>
                              Inr (Some h,
                                   st1\<lparr>cairo_font_map :=
                                         AList.update (full_name e) h (cairo_font_map st1)\<rparr>)
                          | None \<Rightarrow> Inr (None, st1)))
                | None \<Rightarrow> Inr (None, st1)))"

text \<open>
  For stating the properties: a field of the family list taken apart into the white
  space it starts with, the family name, and the white space it ends with. The name of
  a well-formed field neither starts nor ends with white space.
\<close>

record field_parts =
  lead :: string
  family :: string
  trail :: string

definition field_of :: "field_parts \<Rightarrow> string" where
  "field_of p = lead p @ family p @ trail p"

definition well_padded :: "field_parts \<Rightarrow> bool" where
  "well_padded p =
     (list_all isspace (lead p) \<and> list_all isspace (trail p) \<and>
      (case family p of [] \<Rightarrow> True | c # cs \<Rightarrow> \<not> isspace c \<and> \<not> isspace (last (c # cs))))"

text \<open>Three discovered fonts and a bold italic description, for evaluating the definitions.\<close>

definition open_sans_regular :: font_entry where
  "open_sans_regular =
     \<lparr> full_name = ''Open Sans Regular'', font_file = ''/fonts/OpenSans-Regular.ttf'',
       weight = 40, slant = 0, stretch = 50 \<rparr>"

definition open_sans_bold :: font_entry where
  "open_sans_bold =
     \<lparr> full_name = ''Open Sans Bold'', font_file = ''/fonts/OpenSans-Bold.ttf'',
       weight = 70, slant = 0, stretch = 50 \<rparr>"

definition roboto_bold_italic :: font_entry where
  "roboto_bold_italic =
     \<lparr> full_name = ''Roboto Bold Italic'', font_file = ''/fonts/Roboto-BoldItalic.ttf'',
       weight = 70, slant = 90, stretch = 50 \<rparr>"

definition example_env :: font_env where
  "example_env =
     \<lparr> font_paths = [],
       current_resources = Inr ''/home/u/app/resources'',
       fc_fonts = (\<lambda>dirs. [(''Open Sans'', open_sans_regular), (''Roboto '', roboto_bold_italic),
                            (''  Open Sans'', open_sans_bold)]),
       ft_init_status = 0,
       load_face = (\<lambda>e. if font_file e = ''/fonts/OpenSans-Bold.ttf'' then Some 7 else None) \<rparr>"

definition example_font_map :: font_map_type where
  "example_font_map =
     [(''Open Sans'', [open_sans_regular, open_sans_bold]), (''Roboto'', [roboto_bold_italic])]"

definition bold_italic :: "string \<Rightarrow> font_descr" where
  "bold_italic fams =
     \<lparr> families = fams, descr_weight = 70, descr_slant = 90, descr_stretch = 50 \<rparr>"

subsection \<open>Properties of matching\<close>

lemma ltrim_padded:
  assumes "list_all isspace l" and "\<not> isspace c"
  shows "ltrim (l @ c # rest) = c # rest"
proof -
  have "dropWhile isspace (l @ c # rest) = dropWhile isspace (c # rest)"
    using assms(1) by (intro dropWhile_append2) (simp add: list_all_iff)
  with assms(2) show ?thesis by (simp add: ltrim_def)
qed

lemma ltrim_blank: "list_all isspace l \<Longrightarrow> ltrim l = []"
  by (simp add: ltrim_def list_all_iff)

lemma rtrim_padded:
  assumes "list_all isspace t" and "\<not> isspace (last (c # cs))"
  shows "rtrim ((c # cs) @ t) = c # cs"
proof -
  have "rev (c # cs) \<noteq> []" by simp
  then obtain d ds where r: "rev (c # cs) = d # ds" by (cases "rev (c # cs)") auto
  then have "d = last (c # cs)" by (metis hd_rev list.sel(1))
  with assms(2) have d: "\<not> isspace d" by simp
  have "dropWhile isspace (rev t @ d # ds) = dropWhile isspace (d # ds)"
    using assms(1) by (intro dropWhile_append2) (simp add: list_all_iff)
  with d have "dropWhile isspace (rev ((c # cs) @ t)) = rev (c # cs)"
    by (simp only: rev_append r) simp
  then show ?thesis by (simp only: rtrim_def rev_rev_ident)
qed

lemma trim_field_of: "well_padded p \<Longrightarrow> trim (field_of p) = family p"
proof (cases "family p")
  case Nil
  assume "well_padded p"
  then have "list_all isspace (lead p @ trail p)" by (simp add: well_padded_def)
  then have "ltrim (lead p @ trail p) = []" by (rule ltrim_blank)
  with Nil show ?thesis by (simp add: trim_def field_of_def rtrim_def)
next
  case (Cons c cs)
  assume "well_padded p"
  with Cons have l: "list_all isspace (lead p)" and t: "list_all isspace (trail p)"
    and c: "\<not> isspace c" and e: "\<not> isspace (last (c # cs))"
    by (simp_all add: well_padded_def)
  have "ltrim (field_of p) = (c # cs) @ trail p"
    using ltrim_padded [OF l c, of "cs @ trail p"] Cons by (simp add: field_of_def)
  with rtrim_padded [OF t e] Cons show ?thesis by (simp add: trim_def)
qed

lemma match_families_none:
  "\<forall>f\<in>set fs. map_of fm (trim f) = None \<Longrightarrow> match_families fm descr fs = None"
  by (induction fs) simp_all

lemma abs_diff_uint8: "0 \<le> d \<Longrightarrow> d \<le> 255 \<Longrightarrow> \<bar>d - uint (w :: 8 word)\<bar> \<le> 255"
proof -
  assume d: "0 \<le> d" "d \<le> 255"
  have lo: "0 \<le> uint w" by simp
  have "uint w < 2 ^ LENGTH(8)" by (rule uint_bounded)
  then have hi: "uint w < 256" by simp
  from d lo hi show ?thesis by arith
qed

lemma score_bound:
  assumes "descr_in_range descr"
  shows "score descr item < 10000"
proof -
  let ?a = "\<bar>descr_weight descr - uint (weight item)\<bar>"
  let ?b = "\<bar>descr_slant descr - uint (slant item)\<bar>"
  let ?c = "\<bar>descr_stretch descr - uint (stretch item)\<bar>"
  from assms have "?a \<le> 255" "?b \<le> 255" "?c \<le> 255"
    by (simp_all add: descr_in_range_def abs_diff_uint8)
  then have "(of_int ?a :: rat) \<le> 255" "(of_int ?b :: rat) \<le> 255" "(of_int ?c :: rat) \<le> 255"
    by (simp_all only: of_int_le_numeral_iff)
  then show ?thesis unfolding score_def by simp
qed

lemma best_match_loop_Some:
  "\<exists>e\<in>insert b (set items). best_match_loop descr items mn (Some b) = Some e"
proof (induction items arbitrary: mn b)
  case Nil
  show ?case by simp
next
  case (Cons item items)
  show ?case
  proof (cases "score descr item < of_int mn")
    case True
    with Cons [of item "\<lfloor>score descr item\<rfloor>"] show ?thesis by auto
  next
    case False
    with Cons [of b mn] show ?thesis by auto
  qed
qed

lemma best_match_nonempty:
  assumes "descr_in_range descr" and "entries \<noteq> []"
  shows "\<exists>e\<in>set entries. best_match_loop descr entries 10000 None = Some e"
proof -
  from assms(2) obtain item items where e: "entries = item # items" by (cases entries) auto
  have "score descr item < of_int 10000" using score_bound [OF assms(1)] by simp
  then have "best_match_loop descr entries 10000 None =
        best_match_loop descr items \<lfloor>score descr item\<rfloor> (Some item)"
    by (simp add: e)
  with best_match_loop_Some [of item items descr "\<lfloor>score descr item\<rfloor>"] show ?thesis
    by (auto simp: e)
qed

lemma match_families_skip:
  "\<forall>g\<in>set pre. map_of fm (trim g) = None \<or> map_of fm (trim g) = Some [] \<Longrightarrow>
   match_families fm descr (pre @ rest) = match_families fm descr rest"
  by (induction pre) auto

lemma match_families_hit:
  assumes "descr_in_range descr"
    and "map_of fm (trim f) = Some entries" and "entries \<noteq> []"
  shows "match_families fm descr (f # post) = best_match_loop descr entries 10000 None"
  using best_match_nonempty [OF assms(1,3)] assms(2) by auto

lemma example_init: "init_font_map example_env [] = Inr example_font_map"
  by (simp add: init_font_map_def app_font_dirs_def example_env_def add_font_def trim_def
      ltrim_def rtrim_def isspace_def example_font_map_def)

lemma example_consulted: "consulted_font_map example_env [] = Inr example_font_map"
  by (simp add: consulted_font_map_def example_init)

text \<open>
  C7 (amended). Provided that the library was initialised when the static loader was
  constructed (the status that the loader asserts to be 0) and that building the font
  map raised no exception: when no family of the description's list, taken without the
  white space around it, is a key of the font map, the constructor returns a font whose
  handle is null, and no error. The failed match shows in nothing but the null handle.
\<close>

theorem font_ctor_no_family:
  assumes "ft_init_status env = 0"
    and "consulted_font_map env (font_map st) = Inr fm"
    and "getline_fields CHR '','' (families descr) = map field_of parts"
    and "\<forall>p\<in>set parts. well_padded p \<and> map_of fm (family p) = None"
  shows "font_ctor env st descr = Inr (None, st\<lparr>font_map := fm\<rparr>)"
proof -
  have "\<forall>f\<in>set (map field_of parts). map_of fm (trim f) = None"
    using assms(4) by (simp add: trim_field_of)
  then have "match_families fm descr (getline_fields CHR '','' (families descr)) = None"
    unfolding assms(3) by (rule match_families_none)
  with assms(1,2) show ?thesis by (simp add: font_ctor_def match_def)
qed

theorem font_ctor_no_family_witness:
  "font_ctor example_env \<lparr>font_map = [], cairo_font_map = []\<rparr> (bold_italic ''Helvetica, Arial'')
     = Inr (None, \<lparr>font_map = example_font_map, cairo_font_map = []\<rparr>)"
proof -
  let ?st = "\<lparr>font_map = [], cairo_font_map = []\<rparr>"
  let ?parts = "[\<lparr>lead = [], family = ''Helvetica'', trail = []\<rparr>,
                  \<lparr>lead = '' '', family = ''Arial'', trail = []\<rparr>]"
  have a: "ft_init_status example_env = 0" by (simp add: example_env_def)
  have b: "consulted_font_map example_env (font_map ?st) = Inr example_font_map"
    by (simp add: example_consulted)
  have c: "getline_fields CHR '','' (families (bold_italic ''Helvetica, Arial''))
             = map field_of ?parts"
    by (simp add: bold_italic_def field_of_def)
  have d: "\<forall>p\<in>set ?parts. well_padded p \<and> map_of example_font_map (family p) = None"
    by (simp add: well_padded_def isspace_def example_font_map_def)
  from font_ctor_no_family [OF a b c d] show ?thesis by simp
qed

text \<open>
  Without the two provisos an error is raised for the same description, whose families
  are in no font map: the assertion of the loader fails when the library was not
  initialised, and the exception of \<open>current_path\<close> leaves the constructor when the font
  map has yet to be built and no font path is set.
\<close>

theorem font_ctor_raises:
  "font_ctor (example_env\<lparr>ft_init_status := 1\<rparr>) \<lparr>font_map = [], cairo_font_map = []\<rparr>
     (bold_italic ''Helvetica, Arial'') = Inl Assertion_failure \<and>
   font_ctor (example_env\<lparr>current_resources := Inl (Filesystem_error ''cannot get current path'')\<rparr>)
     \<lparr>font_map = [], cairo_font_map = []\<rparr> (bold_italic ''Helvetica, Arial'')
     = Inl (Filesystem_exception (Filesystem_error ''cannot get current path'')) \<and>
   map (\<lambda>f. map_of example_font_map (trim f)) (getline_fields CHR '','' ''Helvetica, Arial'')
     = [None, None]"
  by (simp add: font_ctor_def match_def consulted_font_map_def init_font_map_def
      app_font_dirs_def example_env_def example_font_map_def trim_def ltrim_def rtrim_def
      isspace_def)

text \<open>
  C10. The families of the description are looked up from left to right in the font map
  that \<open>match\<close> consults, each without the white space around it. At the first family that the font map holds with at least
  one entry, \<open>match\<close> returns an entry of that family, namely the one the inner loop
  picks among that family's entries alone. The families listed after it play no part:
  the result is that of the list cut off after this family, also when a later family
  has an entry with a better score (in the example below, Roboto's entry has score 0
  and is not returned).
\<close>

theorem match_first_family:
  assumes "descr_in_range descr"
    and "consulted_font_map env fm = Inr fm'"
    and "getline_fields CHR '','' (families descr) = map field_of pre @ field_of f # post"
    and "\<forall>p\<in>set pre. well_padded p \<and>
           (map_of fm' (family p) = None \<or> map_of fm' (family p) = Some [])"
    and "well_padded f"
    and "map_of fm' (family f) = Some entries"
    and "entries \<noteq> []"
  shows "match env fm descr = Inr (best_match_loop descr entries 10000 None, fm') \<and>
         (\<exists>e\<in>set entries. match env fm descr = Inr (Some e, fm')) \<and>
         match_families fm' descr (map field_of pre @ field_of f # post) =
           match_families fm' descr (map field_of pre @ [field_of f])"
proof -
  have skip: "\<forall>g\<in>set (map field_of pre). map_of fm' (trim g) = None \<or> map_of fm' (trim g) = Some []"
    using assms(4) by (simp add: trim_field_of)
  have hit: "map_of fm' (trim (field_of f)) = Some entries"
    using assms(5,6) by (simp add: trim_field_of)
  have "match_families fm' descr (map field_of pre @ field_of f # post)
          = match_families fm' descr (field_of f # post)"
    using skip by (rule match_families_skip)
  also have "\<dots> = best_match_loop descr entries 10000 None"
    using assms(1) hit assms(7) by (rule match_families_hit)
  finally have eq: "match_families fm' descr (map field_of pre @ field_of f # post)
                      = best_match_loop descr entries 10000 None" .
  have "match_families fm' descr (map field_of pre @ [field_of f])
          = match_families fm' descr [field_of f]"
    using skip by (rule match_families_skip)
  also have "\<dots> = best_match_loop descr entries 10000 None"
    using assms(1) hit assms(7) by (rule match_families_hit)
  finally have cut: "match_families fm' descr (map field_of pre @ [field_of f])
                       = best_match_loop descr entries 10000 None" .
  have m: "match env fm descr = Inr (best_match_loop descr entries 10000 None, fm')"
    by (simp add: match_def assms(2,3) eq)
  from m eq cut best_match_nonempty [OF assms(1,7)] show ?thesis by auto
qed

theorem match_first_family_witness:
  "match example_env [] (bold_italic ''Helvetica, Open Sans ,Roboto'')
     = Inr (Some open_sans_bold, example_font_map) \<and>
   score (bold_italic ''Helvetica, Open Sans ,Roboto'') open_sans_bold = 270 \<and>
   score (bold_italic ''Helvetica, Open Sans ,Roboto'') roboto_bold_italic = 0"
proof -
  let ?d = "bold_italic ''Helvetica, Open Sans ,Roboto''"
  let ?pre = "[\<lparr>lead = [], family = ''Helvetica'', trail = []\<rparr>]"
  let ?f = "\<lparr>lead = '' '', family = ''Open Sans'', trail = '' ''\<rparr>"
  have r: "descr_in_range ?d" by (simp add: descr_in_range_def bold_italic_def)
  have f: "getline_fields CHR '','' (families ?d) = map field_of ?pre @ field_of ?f # [''Roboto'']"
    by (simp add: bold_italic_def field_of_def)
  have s: "\<forall>p\<in>set ?pre. well_padded p \<and>
             (map_of example_font_map (family p) = None \<or>
              map_of example_font_map (family p) = Some [])"
    by (simp add: well_padded_def isspace_def example_font_map_def)
  have w: "well_padded ?f" by (simp add: well_padded_def isspace_def)
  have h: "map_of example_font_map (family ?f) = Some [open_sans_regular, open_sans_bold]"
    by (simp add: example_font_map_def)
  have n: "[open_sans_regular, open_sans_bold] \<noteq> []" by simp
  have s1: "score ?d open_sans_regular = 300"
    by (simp add: score_def bold_italic_def open_sans_regular_def)
  have s2: "score ?d open_sans_bold = 270"
    by (simp add: score_def bold_italic_def open_sans_bold_def)
  have s3: "score ?d roboto_bold_italic = 0"
    by (simp add: score_def bold_italic_def roboto_bold_italic_def)
  have "best_match_loop ?d [open_sans_regular, open_sans_bold] 10000 None = Some open_sans_bold"
    by (simp add: s1 s2)
  with match_first_family [OF r example_consulted f s w h n] s2 s3 show ?thesis by simp
qed

section \<open>Tile layout (the layout pass of a vertical or horizontal tile)\<close>

text \<open>
  examples/layout/main.cpp builds tiles with \<open>vtile\<close> and \<open>htile\<close>; the layout pass itself
  is in a part of the library that is not among the sources at hand. The definitions of
  this section follow the spec's description of the pass (4.3, steps 1 to 4) along the
  main axis. Extents and stretch weights are rational numbers.
\<close>

text \<open>
  Modelled from the spec: what the layout pass of a tile reads of a child (step 1), its
  limits \<open>(min_i, max_i)\<close> on the main axis and its stretch weight.
\<close>

record tile_child =
  min_extent :: rat
  max_extent :: rat
  stretch_weight :: rat

text \<open>A child from its minimum, its maximum and its stretch weight, in this order.\<close>

definition make_child :: "rat \<Rightarrow> rat \<Rightarrow> rat \<Rightarrow> tile_child" where
  "make_child mn mx st = \<lparr> min_extent = mn, max_extent = mx, stretch_weight = st \<rparr>"

text \<open>
  Modelled from the spec: the working state of the layout pass of a tile for one child,
  the extra space \<open>extra_i\<close> it holds on top of its minimum and whether it has been
  clamped to its maximum (steps 3 and 4).
\<close>

record slot =
  child :: tile_child
  extra :: rat
  clamped :: bool

text \<open>
  Modelled from the spec: step 3 of the layout pass of a tile. The slack is distributed in
  proportion to the stretch weights, \<open>extra_i = slack * stretch_i / sum(stretch_j)\<close>, and
  a child with stretch 0 receives none.
\<close>

definition initial_slots :: "rat \<Rightarrow> tile_child list \<Rightarrow> slot list" where
  "initial_slots slack cs =
     (let total_stretch = sum_list (map stretch_weight cs)
      in map (\<lambda>c. \<lparr> child = c,
                     extra = (if stretch_weight c = 0 then 0
                              else slack * stretch_weight c / total_stretch),
                     clamped = False \<rparr>) cs)"

text \<open>
  Modelled from the spec: the test of step 4 of the layout pass of a tile,
  \<open>min_i + extra_i > max_i\<close>, for a child that has not been clamped yet.
\<close>

definition over_max :: "slot \<Rightarrow> bool" where
  "over_max s = (\<not> clamped s \<and> min_extent (child s) + extra s > max_extent (child s))"

text \<open>
  Modelled from the spec: the excess slack of step 4 of the layout pass of a tile, what a
  child over its maximum holds beyond the maximum.
\<close>

definition excess_of :: "slot \<Rightarrow> rat" where
  "excess_of s =
     (if over_max s then min_extent (child s) + extra s - max_extent (child s) else 0)"

text \<open>
  Modelled from the spec: the clamp of step 4 of the layout pass of a tile. A child over
  its maximum is set to the maximum and counts as clamped from then on.
\<close>

definition clamp_slot :: "slot \<Rightarrow> slot" where
  "clamp_slot s =
     (if over_max s
      then s\<lparr>extra := max_extent (child s) - min_extent (child s), clamped := True\<rparr>
      else s)"

text \<open>
  Modelled from the spec: the sum of the stretch weights of the remaining (non-clamped)
  children, in proportion to which step 4 of the layout pass redistributes.
\<close>

definition remaining_stretch :: "slot list \<Rightarrow> rat" where
  "remaining_stretch ss = sum_list (map (stretch_weight \<circ> child) (filter (\<lambda>s. \<not> clamped s) ss))"

text \<open>
  Modelled from the spec: the end condition of step 4 of the layout pass of a tile, ``all
  remaining children have stretch 0''.
\<close>

definition stretch_exhausted :: "slot list \<Rightarrow> bool" where
  "stretch_exhausted ss =
     list_all (\<lambda>s. stretch_weight (child s) = 0) (filter (\<lambda>s. \<not> clamped s) ss)"

text \<open>
  Modelled from the spec: the redistribution of step 4 of the layout pass of a tile. A
  remaining child receives its share of the excess, in proportion to its stretch weight
  among the remaining children.
\<close>

definition give_share :: "rat \<Rightarrow> rat \<Rightarrow> slot \<Rightarrow> slot" where
  "give_share excess total_stretch s =
     (if clamped s then s
      else s\<lparr>extra := extra s + excess * stretch_weight (child s) / total_stretch\<rparr>)"

text \<open>The number of children not yet clamped; it decreases with every round of step 4.\<close>

fun unclamped :: "slot list \<Rightarrow> nat" where
  "unclamped [] = 0"
| "unclamped (s # ss) = (if clamped s then 0 else 1) + unclamped ss"

lemma clamp_slot_id: "\<not> over_max s \<Longrightarrow> clamp_slot s = s"
  by (simp add: clamp_slot_def)

lemma clamp_slot_over:
  "over_max s \<Longrightarrow>
   clamp_slot s = s\<lparr>extra := max_extent (child s) - min_extent (child s), clamped := True\<rparr>"
  by (simp add: clamp_slot_def)

lemma unclamped_give_share: "unclamped (map (give_share e w) ss) = unclamped ss"
  by (induction ss) (simp_all add: give_share_def)

lemma clamped_clamp_slot: "clamped s \<Longrightarrow> clamped (clamp_slot s)"
  by (simp add: clamp_slot_def)

lemma unclamped_clamp_le: "unclamped (map clamp_slot ss) \<le> unclamped ss"
  by (induction ss) (simp_all add: clamped_clamp_slot)

lemma unclamped_clamp_less: "list_ex over_max ss \<Longrightarrow> unclamped (map clamp_slot ss) < unclamped ss"
proof (induction ss)
  case Nil
  then show ?case by simp
next
  case (Cons s ss)
  show ?case
  proof (cases "over_max s")
    case True
    then have "unclamped (map clamp_slot (s # ss)) = unclamped (map clamp_slot ss)"
      and "unclamped (s # ss) = Suc (unclamped ss)"
      by (simp_all add: clamp_slot_over) (simp add: over_max_def)
    with unclamped_clamp_le [of ss] show ?thesis by simp
  next
    case False
    with Cons have "unclamped (map clamp_slot ss) < unclamped ss" by simp
    with False show ?thesis by (simp add: clamp_slot_id)
  qed
qed

text \<open>
  Modelled from the spec: the loop of step 4 of the layout pass of a tile. Children over
  their maximum are clamped and the excess is redistributed among the remaining children;
  this repeats until no child is over its maximum or all remaining children have stretch
  0, in which case the remaining slack is left unused. The spec gives no order among
  children that are over their maximum at the same time; a round clamps all of them.
\<close>

function redistribute :: "slot list \<Rightarrow> slot list" where
  "redistribute ss =
     (if \<not> list_ex over_max ss then ss
      else
        let excess = sum_list (map excess_of ss);
            ss' = map clamp_slot ss
        in if stretch_exhausted ss' then ss'
           else redistribute (map (give_share excess (remaining_stretch ss')) ss'))"
  by pat_completeness auto
termination
proof (relation "measure unclamped")
  show "wf (measure unclamped)" by simp
next
  fix ss :: "slot list" and excess ss'
  assume "\<not> \<not> list_ex over_max ss" and "ss' = map clamp_slot ss"
  then show "(map (give_share excess (remaining_stretch ss')) ss', ss) \<in> measure unclamped"
    by (simp add: unclamped_give_share unclamped_clamp_less del: map_map)
qed

text \<open>
  Modelled from the spec: the extent that the layout pass of a tile assigns to a child,
  its minimum and its extra space.
\<close>

definition assigned :: "slot \<Rightarrow> rat" where
  "assigned s = min_extent (child s) + extra s"

text \<open>
  Modelled from the spec: the layout pass of a tile along its main axis (4.3, steps 1 to
  4), from the available extent and the children's limits and stretch weights to the
  extents assigned to the children, in order. When the minimums add up to more than the
  available extent, every child is assigned its minimum (step 2).
\<close>

definition tile_layout :: "rat \<Rightarrow> tile_child list \<Rightarrow> rat list" where
  "tile_layout available cs =
     (let total_min = sum_list (map min_extent cs)
      in if total_min > available then map min_extent cs
         else let slack = available - total_min
              in map assigned (redistribute (initial_slots slack cs)))"

text \<open>
  For stating the properties: the most that the children can take up, where a child with
  stretch 0 stays at its minimum and any other child can grow to its maximum; and the
  room between the minimums and that.
\<close>

definition capacity :: "tile_child list \<Rightarrow> rat" where
  "capacity cs =
     sum_list (map (\<lambda>c. if stretch_weight c = 0 then min_extent c else max_extent c) cs)"

definition headroom :: "tile_child list \<Rightarrow> rat" where
  "headroom cs =
     sum_list (map (\<lambda>c. if stretch_weight c = 0 then 0 else max_extent c - min_extent c) cs)"

subsection \<open>Invariants of the redistribution\<close>

declare redistribute.simps [simp del]

text \<open>
  What holds of every child throughout step 4: well-formed limits and weight, no negative
  extra space, a clamped child at its maximum, a child without stretch at its minimum.
\<close>

definition slot_ok :: "slot \<Rightarrow> bool" where
  "slot_ok s =
     (min_extent (child s) \<le> max_extent (child s) \<and> 0 \<le> stretch_weight (child s) \<and>
      0 \<le> extra s \<and>
      (clamped s \<longrightarrow>
         extra s = max_extent (child s) - min_extent (child s) \<and> stretch_weight (child s) \<noteq> 0) \<and>
      (stretch_weight (child s) = 0 \<longrightarrow> extra s = 0))"

text \<open>One round of step 4 that is followed by another.\<close>

definition next_round :: "slot list \<Rightarrow> slot list" where
  "next_round ss =
     map (give_share (sum_list (map excess_of ss)) (remaining_stretch (map clamp_slot ss)))
       (map clamp_slot ss)"

lemma redistribute_done: "\<not> list_ex over_max ss \<Longrightarrow> redistribute ss = ss"
  by (subst redistribute.simps) simp

lemma redistribute_stop:
  "list_ex over_max ss \<Longrightarrow> stretch_exhausted (map clamp_slot ss) \<Longrightarrow>
   redistribute ss = map clamp_slot ss"
  by (subst redistribute.simps) simp

lemma redistribute_step:
  "list_ex over_max ss \<Longrightarrow> \<not> stretch_exhausted (map clamp_slot ss) \<Longrightarrow>
   redistribute ss = redistribute (next_round ss)"
  by (subst redistribute.simps) (simp add: next_round_def)

lemma unclamped_next_round: "list_ex over_max ss \<Longrightarrow> unclamped (next_round ss) < unclamped ss"
  by (simp add: next_round_def unclamped_give_share unclamped_clamp_less del: map_map)

lemma child_clamp_slot: "child (clamp_slot s) = child s"
  by (simp add: clamp_slot_def)

lemma child_give_share: "child (give_share e w s) = child s"
  by (simp add: give_share_def)

lemma children_next_round: "map child (next_round ss) = map child ss"
  by (simp add: next_round_def child_clamp_slot child_give_share comp_def)

lemma excess_nonneg: "0 \<le> excess_of s"
  by (simp add: excess_of_def over_max_def)

lemma excess_sum_nonneg: "0 \<le> sum_list (map excess_of ss)"
  by (induction ss) (simp_all add: excess_nonneg)

lemma excess_sum_pos: "list_ex over_max ss \<Longrightarrow> 0 < sum_list (map excess_of ss)"
proof (induction ss)
  case Nil
  then show ?case by simp
next
  case (Cons s ss)
  show ?case
  proof (cases "over_max s")
    case True
    then have "0 < excess_of s" by (simp add: excess_of_def over_max_def)
    with excess_sum_nonneg [of ss] show ?thesis by simp
  next
    case False
    with Cons have "0 < sum_list (map excess_of ss)" by simp
    with excess_nonneg [of s] show ?thesis by simp
  qed
qed

lemma slot_ok_clamp: "slot_ok s \<Longrightarrow> slot_ok (clamp_slot s)"
  by (auto simp: slot_ok_def clamp_slot_def over_max_def)

lemma slot_ok_give_share: "slot_ok s \<Longrightarrow> 0 \<le> e \<Longrightarrow> 0 < w \<Longrightarrow> slot_ok (give_share e w s)"
  by (auto simp: slot_ok_def give_share_def)

lemma remaining_stretch_nonneg: "\<forall>s\<in>set ss. slot_ok s \<Longrightarrow> 0 \<le> remaining_stretch ss"
  by (induction ss) (simp_all add: remaining_stretch_def slot_ok_def)

lemma remaining_stretch_pos:
  "\<forall>s\<in>set ss. slot_ok s \<Longrightarrow> \<not> stretch_exhausted ss \<Longrightarrow> 0 < remaining_stretch ss"
proof (induction ss)
  case Nil
  then show ?case by (simp add: stretch_exhausted_def)
next
  case (Cons s ss)
  from Cons.prems(1) have ok: "\<forall>s\<in>set ss. slot_ok s" and s: "0 \<le> stretch_weight (child s)"
    by (simp_all add: slot_ok_def)
  show ?case
  proof (cases "stretch_exhausted ss")
    case True
    with Cons.prems(2) have "\<not> clamped s" "stretch_weight (child s) \<noteq> 0"
      by (auto simp: stretch_exhausted_def split: if_splits)
    with s remaining_stretch_nonneg [OF ok] show ?thesis
      by (simp add: remaining_stretch_def)
  next
    case False
    with Cons.IH [OF ok] s show ?thesis
      by (simp add: remaining_stretch_def)
  qed
qed

lemma slots_ok_next_round:
  assumes "\<forall>s\<in>set ss. slot_ok s" and "\<not> stretch_exhausted (map clamp_slot ss)"
  shows "\<forall>s\<in>set (next_round ss). slot_ok s"
proof -
  have ok: "\<forall>s\<in>set (map clamp_slot ss). slot_ok s"
    using assms(1) by (simp add: slot_ok_clamp)
  from remaining_stretch_pos [OF ok assms(2)] excess_sum_nonneg [of ss] ok
  show ?thesis by (simp add: next_round_def slot_ok_give_share)
qed

lemma extra_sum_clamp:
  "sum_list (map extra (map clamp_slot ss)) = sum_list (map extra ss) - sum_list (map excess_of ss)"
  by (induction ss) (simp_all add: clamp_slot_def excess_of_def)

lemma extra_sum_give_share:
  "sum_list (map extra (map (give_share e w) ss)) =
   sum_list (map extra ss) + e * remaining_stretch ss / w"
  by (induction ss)
    (simp_all add: give_share_def remaining_stretch_def distrib_left add_divide_distrib)

lemma extra_sum_next_round:
  assumes "\<forall>s\<in>set ss. slot_ok s" and "\<not> stretch_exhausted (map clamp_slot ss)"
  shows "sum_list (map extra (next_round ss)) = sum_list (map extra ss)"
proof -
  have ok: "\<forall>s\<in>set (map clamp_slot ss). slot_ok s"
    using assms(1) by (simp add: slot_ok_clamp)
  from remaining_stretch_pos [OF ok assms(2)]
  have "remaining_stretch (map clamp_slot ss) \<noteq> 0" by simp
  then show ?thesis
    unfolding next_round_def extra_sum_give_share extra_sum_clamp by simp
qed

lemma capacity_headroom: "capacity cs = sum_list (map min_extent cs) + headroom cs"
  by (induction cs) (simp_all add: capacity_def headroom_def)

lemma exhausted_extra_sum:
  "\<forall>s\<in>set ss. slot_ok s \<Longrightarrow> stretch_exhausted ss \<Longrightarrow>
   sum_list (map extra ss) = headroom (map child ss)"
proof (induction ss)
  case Nil
  show ?case by (simp add: headroom_def)
next
  case (Cons s ss)
  from Cons.prems have ex: "stretch_exhausted ss"
    by (simp add: stretch_exhausted_def split: if_splits)
  from Cons.prems(1) have ok: "\<forall>s\<in>set ss. slot_ok s" and s: "slot_ok s" by simp_all
  have rest: "sum_list (map extra ss) = headroom (map child ss)"
    using Cons.IH [OF ok ex] .
  have "extra s = (if stretch_weight (child s) = 0 then 0
                   else max_extent (child s) - min_extent (child s))"
  proof (cases "clamped s")
    case True
    with s show ?thesis by (simp add: slot_ok_def)
  next
    case False
    with Cons.prems(2) have "stretch_weight (child s) = 0"
      by (simp add: stretch_exhausted_def)
    with s show ?thesis by (simp add: slot_ok_def)
  qed
  with rest show ?case by (simp add: headroom_def)
qed

lemma exhausted_not_over:
  "\<forall>s\<in>set ss. slot_ok s \<Longrightarrow> stretch_exhausted ss \<Longrightarrow> \<forall>s\<in>set ss. \<not> over_max s"
proof
  fix s
  assume ok: "\<forall>s\<in>set ss. slot_ok s" and ex: "stretch_exhausted ss" and s: "s \<in> set ss"
  show "\<not> over_max s"
  proof (cases "clamped s")
    case True
    then show ?thesis by (simp add: over_max_def)
  next
    case False
    with ex s have "stretch_weight (child s) = 0"
      by (auto simp: stretch_exhausted_def list_all_iff)
    with ok s show ?thesis by (auto simp: slot_ok_def over_max_def)
  qed
qed

lemma redistribute_ok:
  "\<forall>s\<in>set ss. slot_ok s \<Longrightarrow>
   (\<forall>s\<in>set (redistribute ss). slot_ok s \<and> \<not> over_max s) \<and>
   map child (redistribute ss) = map child ss \<and>
   sum_list (map extra (redistribute ss)) \<le> sum_list (map extra ss)"
proof (induction "unclamped ss" arbitrary: ss rule: less_induct)
  case less
  show ?case
  proof (cases "list_ex over_max ss")
    case False
    with less.prems show ?thesis
      by (simp add: redistribute_done list_ex_iff)
  next
    case over: True
    have ok': "\<forall>s\<in>set (map clamp_slot ss). slot_ok s"
      using less.prems by (simp add: slot_ok_clamp)
    show ?thesis
    proof (cases "stretch_exhausted (map clamp_slot ss)")
      case True
      have "sum_list (map extra (map clamp_slot ss)) \<le> sum_list (map extra ss)"
        using excess_sum_nonneg [of ss] by (simp only: extra_sum_clamp)
      moreover have "map child (map clamp_slot ss) = map child ss"
        by (simp add: child_clamp_slot comp_def)
      ultimately show ?thesis
        using ok' exhausted_not_over [OF ok' True]
        by (simp only: redistribute_stop [OF over True]) blast
    next
      case False
      have "(\<forall>s\<in>set (redistribute (next_round ss)). slot_ok s \<and> \<not> over_max s) \<and>
            map child (redistribute (next_round ss)) = map child (next_round ss) \<and>
            sum_list (map extra (redistribute (next_round ss)))
              \<le> sum_list (map extra (next_round ss))"
        using less.hyps [OF unclamped_next_round [OF over]]
          slots_ok_next_round [OF less.prems False] by blast
      then show ?thesis
        unfolding redistribute_step [OF over False] children_next_round
          extra_sum_next_round [OF less.prems False] .
    qed
  qed
qed

lemma redistribute_exact:
  "\<forall>s\<in>set ss. slot_ok s \<Longrightarrow> sum_list (map extra ss) \<le> headroom (map child ss) \<Longrightarrow>
   sum_list (map extra (redistribute ss)) = sum_list (map extra ss)"
proof (induction "unclamped ss" arbitrary: ss rule: less_induct)
  case less
  show ?case
  proof (cases "list_ex over_max ss")
    case False
    then show ?thesis by (simp add: redistribute_done)
  next
    case over: True
    have ok': "\<forall>s\<in>set (map clamp_slot ss). slot_ok s"
      using less.prems(1) by (simp add: slot_ok_clamp)
    have not_exhausted: "\<not> stretch_exhausted (map clamp_slot ss)"
    proof
      assume ex: "stretch_exhausted (map clamp_slot ss)"
      have "sum_list (map extra (map clamp_slot ss)) = headroom (map child (map clamp_slot ss))"
        using exhausted_extra_sum [OF ok' ex] .
      also have "map child (map clamp_slot ss) = map child ss"
        by (simp add: child_clamp_slot comp_def)
      finally have "sum_list (map extra ss) - sum_list (map excess_of ss) = headroom (map child ss)"
        by (simp only: extra_sum_clamp)
      with excess_sum_pos [OF over] less.prems(2) show False by simp
    qed
    have "sum_list (map extra (redistribute (next_round ss))) = sum_list (map extra (next_round ss))"
      using less.hyps [OF unclamped_next_round [OF over]]
        slots_ok_next_round [OF less.prems(1) not_exhausted] less.prems(2)
      by (simp only: children_next_round extra_sum_next_round [OF less.prems(1) not_exhausted])
    then show ?thesis
      by (simp only: redistribute_step [OF over not_exhausted]
          extra_sum_next_round [OF less.prems(1) not_exhausted])
  qed
qed

lemma children_initial_slots: "map child (initial_slots slack cs) = cs"
  by (simp add: initial_slots_def comp_def)

lemma stretch_sum_nonneg:
  "\<forall>c\<in>set cs. 0 \<le> stretch_weight c \<Longrightarrow> 0 \<le> sum_list (map stretch_weight cs)"
  by (induction cs) simp_all

lemma stretch_sum_pos:
  "\<forall>c\<in>set cs. 0 \<le> stretch_weight c \<Longrightarrow> c \<in> set cs \<Longrightarrow> stretch_weight c \<noteq> 0 \<Longrightarrow>
   0 < sum_list (map stretch_weight cs)"
proof (induction cs)
  case Nil
  then show ?case by simp
next
  case (Cons a cs)
  from Cons.prems(1) have a: "0 \<le> stretch_weight a" and rest: "\<forall>c\<in>set cs. 0 \<le> stretch_weight c"
    by simp_all
  show ?case
  proof (cases "c = a")
    case True
    with Cons.prems(3) a have "0 < stretch_weight a" by simp
    with stretch_sum_nonneg [OF rest] show ?thesis by simp
  next
    case False
    with Cons.prems(2) have "c \<in> set cs" by simp
    from Cons.IH [OF rest this Cons.prems(3)] a show ?thesis by simp
  qed
qed

lemma slots_ok_initial:
  assumes wf: "\<forall>c\<in>set cs. min_extent c \<le> max_extent c \<and> 0 \<le> stretch_weight c"
    and slack: "0 \<le> slack"
  shows "\<forall>s\<in>set (initial_slots slack cs). slot_ok s"
proof -
  have nonneg: "\<forall>c\<in>set cs. 0 \<le> stretch_weight c" using wf by simp
  have "slot_ok \<lparr> child = c,
                  extra = (if stretch_weight c = 0 then 0
                           else slack * stretch_weight c / sum_list (map stretch_weight cs)),
                  clamped = False \<rparr>" if c: "c \<in> set cs" for c
  proof (cases "stretch_weight c = 0")
    case True
    with wf c show ?thesis by (simp add: slot_ok_def)
  next
    case False
    from stretch_sum_pos [OF nonneg c False] wf c slack show ?thesis
      by (simp add: slot_ok_def)
  qed
  then show ?thesis by (auto simp: initial_slots_def)
qed

lemma share_sum:
  "sum_list (map (\<lambda>c. if stretch_weight c = 0 then 0 else k * stretch_weight c / w) cs) =
   k * sum_list (map stretch_weight cs) / w"
  by (induction cs) (simp_all add: distrib_left add_divide_distrib)

lemma extra_sum_initial:
  "sum_list (map extra (initial_slots slack cs)) =
   (if sum_list (map stretch_weight cs) = 0 then 0 else slack)"
  by (simp add: initial_slots_def comp_def share_sum)

lemma headroom_all_zero: "\<forall>c\<in>set cs. stretch_weight c = 0 \<Longrightarrow> headroom cs = 0"
  by (induction cs) (simp_all add: headroom_def)

lemma headroom_no_stretch:
  assumes nonneg: "\<forall>c\<in>set cs. 0 \<le> stretch_weight c"
    and zero: "sum_list (map stretch_weight cs) = 0"
  shows "headroom cs = 0"
proof (rule headroom_all_zero, rule ballI)
  fix c
  assume "c \<in> set cs"
  from stretch_sum_pos [OF nonneg this] zero show "stretch_weight c = 0" by auto
qed

lemma assigned_sum:
  "sum_list (map assigned ss) = sum_list (map min_extent (map child ss)) + sum_list (map extra ss)"
  by (induction ss) (simp_all add: assigned_def)

lemma assigned_within:
  "slot_ok s \<Longrightarrow> \<not> over_max s \<Longrightarrow>
   min_extent (child s) \<le> assigned s \<and> assigned s \<le> max_extent (child s)"
  by (auto simp: slot_ok_def over_max_def assigned_def)

subsection \<open>Properties of the layout pass\<close>

text \<open>
  C1 (amended). For children with \<open>min \<le> max\<close> and stretch weights that are not negative,
  and an available extent \<open>A\<close> of at least the sum of the minimums: every child's assigned
  extent is at least its minimum and at most its maximum; the assigned extents sum to at
  most \<open>A\<close>; and they sum to exactly \<open>A\<close> whenever \<open>A\<close> is no more than what the children
  can take up, the maximums of the children with a positive stretch weight and the
  minimums of the others.
\<close>

theorem tile_layout_slack:
  assumes wf: "\<forall>c\<in>set cs. min_extent c \<le> max_extent c \<and> 0 \<le> stretch_weight c"
    and enough: "sum_list (map min_extent cs) \<le> A"
  shows "list_all2 (\<lambda>c x. min_extent c \<le> x \<and> x \<le> max_extent c) cs (tile_layout A cs) \<and>
         sum_list (tile_layout A cs) \<le> A \<and>
         (A \<le> capacity cs \<longrightarrow> sum_list (tile_layout A cs) = A)"
proof -
  let ?slack = "A - sum_list (map min_extent cs)"
  let ?init = "initial_slots ?slack cs"
  let ?rs = "redistribute ?init"
  have slack: "0 \<le> ?slack" using enough by simp
  have layout: "tile_layout A cs = map assigned ?rs"
    using enough by (simp add: tile_layout_def Let_def)
  have ok: "\<forall>s\<in>set ?init. slot_ok s" by (rule slots_ok_initial [OF wf slack])
  from redistribute_ok [OF ok]
  have fin: "\<forall>s\<in>set ?rs. slot_ok s \<and> \<not> over_max s"
    and children: "map child ?rs = cs"
    and le: "sum_list (map extra ?rs) \<le> sum_list (map extra ?init)"
    by (simp_all add: children_initial_slots)
  have "list_all2 (\<lambda>c x. min_extent c \<le> x \<and> x \<le> max_extent c)
          (map child ?rs) (map assigned ?rs)"
    using fin by (simp add: list_all2_map1 list_all2_map2 list_all2_same assigned_within)
  then have within: "list_all2 (\<lambda>c x. min_extent c \<le> x \<and> x \<le> max_extent c) cs (tile_layout A cs)"
    by (simp only: children layout)
  have total: "sum_list (tile_layout A cs) = sum_list (map min_extent cs) + sum_list (map extra ?rs)"
    by (simp only: layout assigned_sum children)
  have "sum_list (map extra ?init) \<le> ?slack"
    using slack by (simp add: extra_sum_initial)
  with le total have upper: "sum_list (tile_layout A cs) \<le> A" by simp
  have exact: "sum_list (tile_layout A cs) = A" if cap: "A \<le> capacity cs"
  proof -
    from cap have room: "?slack \<le> headroom cs" by (simp add: capacity_headroom)
    have nonneg: "\<forall>c\<in>set cs. 0 \<le> stretch_weight c" using wf by simp
    have init: "sum_list (map extra ?init) = ?slack"
    proof (cases "sum_list (map stretch_weight cs) = 0")
      case True
      with headroom_no_stretch [OF nonneg True] room slack show ?thesis
        by (simp add: extra_sum_initial)
    next
      case False
      then show ?thesis by (simp add: extra_sum_initial)
    qed
    have "sum_list (map extra ?rs) = sum_list (map extra ?init)"
      using ok room by (intro redistribute_exact) (simp_all add: children_initial_slots init)
    with total init show ?thesis by simp
  qed
  from within upper exact show ?thesis by blast
qed

theorem tile_layout_slack_witness:
  "400 \<le> capacity [make_child 100 1000000 1, make_child 100 1000000 2, make_child 100 1000000 1] \<and>
   list_all2 (\<lambda>c x. min_extent c \<le> x \<and> x \<le> max_extent c)
     [make_child 100 1000000 1, make_child 100 1000000 2, make_child 100 1000000 1]
     (tile_layout 400 [make_child 100 1000000 1, make_child 100 1000000 2, make_child 100 1000000 1]) \<and>
   sum_list (tile_layout 400
     [make_child 100 1000000 1, make_child 100 1000000 2, make_child 100 1000000 1]) = 400"
proof -
  let ?cs = "[make_child 100 1000000 1, make_child 100 1000000 2, make_child 100 1000000 1]"
  have wf: "\<forall>c\<in>set ?cs. min_extent c \<le> max_extent c \<and> 0 \<le> stretch_weight c"
    by (simp add: make_child_def)
  have enough: "sum_list (map min_extent ?cs) \<le> 400"
    by (simp add: make_child_def)
  have cap: "400 \<le> capacity ?cs"
    by (simp add: capacity_def make_child_def)
  from tile_layout_slack [OF wf enough] cap show ?thesis by blast
qed

text \<open>
  Without the bound on \<open>A\<close> the sum falls short of \<open>A\<close>, also when \<open>A\<close> is at least the
  sum of the minimums: two children of the fixed extent 40 in an available extent of 100
  are assigned 40 each, 80 in all, and the remaining 20 stay unused.
\<close>

theorem tile_layout_unused_slack:
  "sum_list (map min_extent [make_child 40 40 1, make_child 40 40 1]) \<le> 100 \<and>
   tile_layout 100 [make_child 40 40 1, make_child 40 40 1] = [40, 40] \<and>
   sum_list (tile_layout 100 [make_child 40 40 1, make_child 40 40 1]) \<noteq> 100"
  by code_simp

text \<open>
  C2. When the available extent is less than the sum of the children's minimums, every
  child is assigned exactly its minimum, and the assigned extents add up to the sum of
  the minimums.
\<close>

theorem tile_layout_overflow:
  assumes "A < sum_list (map min_extent cs)"
  shows "tile_layout A cs = map min_extent cs \<and>
         sum_list (tile_layout A cs) = sum_list (map min_extent cs)"
  using assms by (simp add: tile_layout_def)

theorem tile_layout_overflow_witness:
  "tile_layout 250 [make_child 100 1000000 1, make_child 100 1000000 2, make_child 100 130 1]
     = [100, 100, 100] \<and>
   sum_list (tile_layout 250
     [make_child 100 1000000 1, make_child 100 1000000 2, make_child 100 130 1]) = 300"
proof -
  let ?cs = "[make_child 100 1000000 1, make_child 100 1000000 2, make_child 100 130 1]"
  have "250 < sum_list (map min_extent ?cs)" by (simp add: make_child_def)
  from tile_layout_overflow [OF this] show ?thesis by (simp add: make_child_def)
qed

text \<open>
  C3 (amended). Three children with minimum 100 each and stretch weights 1, 2, 1, the
  third with maximum 130, the first two with maximums of at least 470/3 and 640/3, laid
  out into an available extent of 500: the first distribution puts the third child 20
  over its maximum; it is clamped to 130 and the 20 are redistributed to the first two
  in proportion 1 to 2. The assigned extents are 470/3, 640/3 and 130, which is 156.67,
  213.33 and 130 to two decimal places.
\<close>

theorem tile_layout_clamp_scenario:
  assumes "470 / 3 \<le> m1" and "640 / 3 \<le> m2"
  shows "tile_layout 500 [make_child 100 m1 1, make_child 100 m2 2, make_child 100 130 1] = [470 / 3, 640 / 3, 130] \<and>
         sum_list (map excess_of (initial_slots (500 - 300) [make_child 100 m1 1, make_child 100 m2 2, make_child 100 130 1])) = 20"
proof -
  let ?cs = "[make_child 100 m1 1, make_child 100 m2 2, make_child 100 130 1]"
  let ?s1 = "\<lparr>child = make_child 100 m1 1, extra = 50, clamped = False\<rparr>"
  let ?s2 = "\<lparr>child = make_child 100 m2 2, extra = 100, clamped = False\<rparr>"
  let ?s3 = "\<lparr>child = make_child 100 130 1, extra = 50, clamped = False\<rparr>"
  let ?r1 = "\<lparr>child = make_child 100 m1 1, extra = 50 + 20 / 3, clamped = False\<rparr>"
  let ?r2 = "\<lparr>child = make_child 100 m2 2, extra = 100 + 40 / 3, clamped = False\<rparr>"
  let ?r3 = "\<lparr>child = make_child 100 130 1, extra = 30, clamped = True\<rparr>"
  have init: "initial_slots 200 ?cs = [?s1, ?s2, ?s3]"
    by (simp add: initial_slots_def make_child_def)
  have o1: "\<not> over_max ?s1" "\<not> over_max ?s2" "over_max ?s3"
    using assms by (simp_all add: over_max_def make_child_def)
  have excess: "sum_list (map excess_of [?s1, ?s2, ?s3]) = 20"
    using o1 by (simp add: excess_of_def) (simp add: make_child_def)
  have clamp: "map clamp_slot [?s1, ?s2, ?s3] = [?s1, ?s2, ?r3]"
    using o1 by (simp add: clamp_slot_def) (simp add: make_child_def)
  have rem: "remaining_stretch [?s1, ?s2, ?r3] = 3"
    by (simp add: remaining_stretch_def make_child_def)
  have nex: "\<not> stretch_exhausted [?s1, ?s2, ?r3]"
    by (simp add: stretch_exhausted_def make_child_def)
  have "next_round [?s1, ?s2, ?s3] = [?r1, ?r2, ?r3]"
    unfolding next_round_def excess clamp rem by (simp add: give_share_def make_child_def)
  moreover have "list_ex over_max [?s1, ?s2, ?s3]" using o1 by simp
  ultimately have step: "redistribute [?s1, ?s2, ?s3] = redistribute [?r1, ?r2, ?r3]"
    using redistribute_step [of "[?s1, ?s2, ?s3]"] nex clamp by simp
  have "\<not> list_ex over_max [?r1, ?r2, ?r3]"
    using assms by (simp add: over_max_def make_child_def)
  then have "redistribute [?r1, ?r2, ?r3] = [?r1, ?r2, ?r3]" by (rule redistribute_done)
  with step init have "tile_layout 500 ?cs = map assigned [?r1, ?r2, ?r3]"
    by (simp add: tile_layout_def make_child_def)
  then show ?thesis using excess init by (simp add: assigned_def make_child_def)
qed

theorem tile_layout_clamp_scenario_witness:
  "tile_layout 500 [make_child 100 1000000 1, make_child 100 1000000 2, make_child 100 130 1]
     = [470 / 3, 640 / 3, 130] \<and>
   \<bar>470 / 3 - 15667 / 100\<bar> < (1 / 100 :: rat) \<and> \<bar>640 / 3 - 21333 / 100\<bar> < (1 / 100 :: rat)"
proof -
  have "470 / 3 \<le> (1000000 :: rat)" and "640 / 3 \<le> (1000000 :: rat)" by simp_all
  from tile_layout_clamp_scenario [OF this] show ?thesis by simp
qed

text \<open>
  With minimum 0 and maximum 100 for the children (130 for the third) the outcome is
  another: the slack is 500, the first distribution puts the first two children over
  their maximum, the redistribution of their excess the third, and the children are
  assigned their maximums.
\<close>

theorem tile_layout_literal_scenario:
  "tile_layout 500 [make_child 0 100 1, make_child 0 100 2, make_child 0 130 1] = [100, 100, 130] \<and>
   tile_layout 500 [make_child 0 100 1, make_child 0 100 2, make_child 0 130 1]
     \<noteq> [470 / 3, 640 / 3, 130]"
  by code_simp

end
